theory Spec2Isabelle
  imports Main
begin

section \<open>Data model of \<open>fms_sdg/generate_data.py\<close>\<close>

text \<open>
  An example is opaque to the orchestrator except for the attribute \<open>task_name\<close>, which
  line 141 reads to route an accepted example to its task.
\<close>

record 'a example =
  task_name :: string
  payload :: 'a

text \<open>
  A task object (\<open>SdgTask\<close>, defined outside this file). The orchestrator reads
  \<open>name\<close>, \<open>seed_data\<close>, \<open>machine_data\<close> and \<open>output_path\<close>. The file at
  \<open>output_path\<close> is modelled by \<open>persisted\<close>: \<open>None\<close> when
  \<open>os.path.exists(task.output_path)\<close> is false, otherwise the examples stored there.
\<close>

record 'a task =
  name :: string
  seed_data :: "'a example list"
  machine_data :: "'a example list"
  persisted :: "'a example list option"

text \<open>Modelled from the spec: \<open>SdgTask.load_data\<close> is absent from the source; the task
  interface gives \<open>load() \<rightarrow> sequence of Example\<close>, the previously persisted examples.\<close>

definition load_data :: "'a task \<Rightarrow> 'a example list" where
  "load_data t = (case persisted t of None \<Rightarrow> [] | Some d \<Rightarrow> d)"

text \<open>Modelled from the spec: \<open>SdgTask.save_data\<close> is absent from the source; the task
  interface gives \<open>save(increment)\<close> with append semantics (not a full rewrite).\<close>

definition save_data :: "'a task \<Rightarrow> 'a example list \<Rightarrow> 'a task" where
  "save_data t new_data = t\<lparr>persisted := Some (load_data t @ new_data)\<rparr>"

text \<open>Modelled from the spec: \<open>SdgTask.clear_data\<close> is absent from the source; the spec
  says it discards any prior persisted state.\<close>

definition clear_data :: "'a task \<Rightarrow> 'a task" where
  "clear_data t = t\<lparr>persisted := None\<rparr>"

text \<open>
  The observable effects of a run, in the order they happen: builder invocations with
  what they returned (line 136: request index, pool, accepted examples, discard count),
  \<open>task.save_data\<close> calls (line 146, with the reference of the task in the group's task
  list), progress-bar updates (line 145) and the two \<open>info\<close> log lines (lines 153 and
  163). The \<open>debug\<close> log lines are left out.
\<close>

datatype 'a event =
    Invoke int "'a example list" "'a example list" int
  | Save nat "'a example list"
  | ProgressUpdate
  | LogGenerated nat int
  | LogDiscarded int string

text \<open>
  The variables of \<open>generate_data\<close> that live across builder groups:
  \<open>total_discarded\<close> (line 71), \<open>output_file_discarded\<close> (line 107, unbound until a
  group reaches that line) and the trace of effects.
\<close>

record 'a run =
  total_discarded :: int
  output_file_discarded :: "string option"
  events :: "'a event list"

text \<open>
  The variables while one builder group runs. Python lists hold references to task
  objects, and \<open>tasks\<close> and \<open>completed_tasks\<close> share them; so the objects live in
  \<open>heap\<close> and both lists hold indices into it. \<open>task not in completed_tasks\<close> compares
  objects (\<open>SdgTask\<close> is taken to have the default, identity-based equality), which on
  references is index equality.
\<close>

record ('a, 'b) state = "'a run" +
  heap :: "'a task list"
  tasks :: "nat list"
  completed_tasks :: "nat list"
  request_idx :: int
  builder_state :: 'b

text \<open>
  The builder is a black-box callable: from its own internal state, the request index
  and the pool it returns the accepted examples, the discard count and its next state.
\<close>

type_synonym ('a, 'b) data_builder =
  "'b \<Rightarrow> int \<Rightarrow> 'a example list \<Rightarrow> ('a example list \<times> int) \<times> 'b"

datatype error = SystemExit string | ValueError string | UnboundLocalError string

section \<open>The iteration loop (lines 126--155)\<close>

text \<open>Lines 132--134: the pool is built from the list \<open>tasks\<close>.\<close>

definition data_pool :: "('a, 'b) state \<Rightarrow> 'a example list" where
  "data_pool s =
     concat (map (\<lambda>r. seed_data (heap s ! r) @ machine_data (heap s ! r)) (tasks s))"

text \<open>Lines 141--146: the body of \<open>for task in tasks\<close> for the task with reference \<open>r\<close>.\<close>

definition merge_task ::
  "('a task \<Rightarrow> bool) \<Rightarrow> 'a example list \<Rightarrow> nat \<Rightarrow> ('a, 'b) state \<Rightarrow> ('a, 'b) state" where
  "merge_task is_complete filtered_data r s =
    (let task = heap s ! r;
         new_data = filter (\<lambda>fid. task_name fid = name task) filtered_data;
         task1 = task\<lparr>machine_data := machine_data task @ new_data\<rparr>;
         finished = is_complete task1
     in s\<lparr>heap := (heap s)[r := save_data task1 new_data],
          completed_tasks := (if finished then completed_tasks s @ [r] else completed_tasks s),
          events := events s @ (if finished then [ProgressUpdate] else []) @ [Save r new_data]\<rparr>)"

text \<open>Lines 140--146: the \<open>for\<close> loop over the active tasks.\<close>

definition merge_all ::
  "('a task \<Rightarrow> bool) \<Rightarrow> 'a example list \<Rightarrow> ('a, 'b) state \<Rightarrow> ('a, 'b) state" where
  "merge_all is_complete filtered_data s =
     fold (merge_task is_complete filtered_data) (tasks s) s"

text \<open>Lines 128--155: one pass through the body of the \<open>while\<close> loop.\<close>

definition iteration ::
  "('a task \<Rightarrow> bool) \<Rightarrow> ('a, 'b) data_builder \<Rightarrow> ('a, 'b) state \<Rightarrow> ('a, 'b) state" where
  "iteration is_complete builder s =
    (let idx = request_idx s + 1;
         iter_discarded = 0;
         pool = data_pool s;
         ((filtered_data, discarded), b) = builder (builder_state s) idx pool;
         s1 = s\<lparr>request_idx := idx, builder_state := b,
                events := events s @ [Invoke idx pool filtered_data discarded]\<rparr>;
         s2 = merge_all is_complete filtered_data s1;
         iter_discarded = iter_discarded + discarded;
         s3 = s2\<lparr>tasks := filter (\<lambda>r. r \<notin> set (completed_tasks s2)) (tasks s2),
                 total_discarded := total_discarded s2 + iter_discarded\<rparr>
     in s3\<lparr>events := events s3 @
          [LogGenerated
             (sum_list (map (\<lambda>r. length (machine_data (heap s3 ! r)))
                (tasks s3 @ completed_tasks s3)))
             iter_discarded]\<rparr>)"

text \<open>Line 127: \<open>while tasks and request_idx <= max_gen_requests\<close>. The counter grows by
  one in every pass, so the loop ends.\<close>

function gen_loop ::
  "('a task \<Rightarrow> bool) \<Rightarrow> ('a, 'b) data_builder \<Rightarrow> int \<Rightarrow> ('a, 'b) state \<Rightarrow> ('a, 'b) state" where
  "gen_loop is_complete builder max_gen_requests s =
    (if tasks s \<noteq> [] \<and> request_idx s \<le> max_gen_requests
     then gen_loop is_complete builder max_gen_requests (iteration is_complete builder s)
     else s)"
  by pat_completeness auto
termination
proof (relation "measure (\<lambda>(ic, b, m, s). nat (m + 1 - request_idx s))")
  show "wf (measure (\<lambda>(ic, b, m, s). nat (m + 1 - request_idx s)))"
    by simp
next
  fix is_complete :: "'a task \<Rightarrow> bool" and builder :: "('a, 'b) data_builder"
    and max_gen_requests :: int and s :: "('a, 'b) state"
  assume guard: "tasks s \<noteq> [] \<and> request_idx s \<le> max_gen_requests"
  have one: "request_idx (merge_task ic fd r t) = request_idx t"
    for ic fd r and t :: "('a, 'b) state"
    by (simp add: merge_task_def Let_def)
  have all: "request_idx (fold (merge_task ic fd) rs t) = request_idx t"
    for ic fd rs and t :: "('a, 'b) state"
    by (induction rs arbitrary: t) (simp_all add: one)
  have "request_idx (iteration is_complete builder s) = request_idx s + 1"
    by (simp add: iteration_def merge_all_def Let_def all split: prod.splits)
  with guard show
    "((is_complete, builder, max_gen_requests, iteration is_complete builder s),
      (is_complete, builder, max_gen_requests, s))
     \<in> measure (\<lambda>(ic, b, m, s). nat (m + 1 - request_idx s))"
    by simp
qed

section \<open>Setting up and running one builder group (lines 78--158)\<close>

text \<open>Lines 116--121: the body of the resume loop for one task. The loaded examples
  are assigned to \<open>machine_data\<close>, they are not appended to it.\<close>

definition resume :: "bool \<Rightarrow> 'a task \<Rightarrow> 'a task" where
  "resume restart_generation t =
    (let t1 = (if restart_generation then clear_data t else t)
     in if persisted t1 \<noteq> None then t1\<lparr>machine_data := load_data t1\<rparr> else t1)"

text \<open>
  Lines 123--126: the state at the head of the \<open>while\<close> loop, from the list of task
  objects after the resume loop. References are the positions in that list.
\<close>

definition initial_state ::
  "('a task \<Rightarrow> bool) \<Rightarrow> 'b \<Rightarrow> 'a task list \<Rightarrow> 'a run \<Rightarrow> ('a, 'b) state" where
  "initial_state is_complete b ts w =
    (let done = filter (\<lambda>r. is_complete (ts ! r)) [0..<length ts]
     in \<lparr>total_discarded = total_discarded w,
         output_file_discarded = output_file_discarded w,
         events = events w,
         heap = ts,
         tasks = filter (\<lambda>r. r \<notin> set done) [0..<length ts],
         completed_tasks = done,
         request_idx = 0,
         builder_state = b\<rparr>)"

text \<open>
  Lines 99--155 for the task objects \<open>ts\<close> of one group: the seed check, the resume
  loop, the pre-filter and the iteration loop. An exception is returned with the trace
  of effects up to the \<open>raise\<close>. \<open>file\<close> is the value line 107 computes.
\<close>

definition run_group ::
  "('a task \<Rightarrow> bool) \<Rightarrow> ('a, 'b) data_builder \<Rightarrow> 'b \<Rightarrow> int \<Rightarrow> bool \<Rightarrow> string \<Rightarrow>
   'a task list \<Rightarrow> 'a run \<Rightarrow> (error \<times> 'a event list) + ('a, 'b) state" where
  "run_group is_complete builder b max_gen_requests restart_generation file ts w =
    (let seeds = length (concat (map seed_data ts))
     in if seeds = 0 then Inl (SystemExit ''Nothing to generate. Exiting.'', events w)
        else Inr (gen_loop is_complete builder max_gen_requests
               (initial_state is_complete b (map (resume restart_generation) ts)
                  (w\<lparr>output_file_discarded := Some file\<rparr>))))"

section \<open>Path arithmetic of the standard library (POSIX flavour)\<close>

text \<open>\<open>s.rstrip('/')\<close>.\<close>

definition rstrip_sep :: "string \<Rightarrow> string" where
  "rstrip_sep s = rev (dropWhile (\<lambda>c. c = CHR ''/'') (rev s))"

text \<open>\<open>posixpath.split\<close>: everything after the last slash is the tail; the head loses
  its trailing slashes unless it consists of slashes only.\<close>

definition os_path_split :: "string \<Rightarrow> string \<times> string" where
  "os_path_split p =
    (let tail = rev (takeWhile (\<lambda>c. c \<noteq> CHR ''/'') (rev p));
         head = rev (dropWhile (\<lambda>c. c \<noteq> CHR ''/'') (rev p))
     in (if head \<noteq> [] \<and> head \<noteq> replicate (length head) (CHR ''/'')
         then rstrip_sep head else head, tail))"

text \<open>\<open>posixpath.join\<close> of two components.\<close>

definition os_path_join :: "string \<Rightarrow> string \<Rightarrow> string" where
  "os_path_join a b =
    (if b \<noteq> [] \<and> hd b = CHR ''/'' then b
     else if a = [] \<or> last a = CHR ''/'' then a @ b
     else a @ ''/'' @ b)"

text \<open>\<open>s.split('/')\<close>; the result is never empty.\<close>

fun split_sep :: "string \<Rightarrow> string list" where
  "split_sep [] = [[]]"
| "split_sep (c # cs) =
    (if c = CHR ''/'' then [] # split_sep cs
     else (c # hd (split_sep cs)) # tl (split_sep cs))"

text \<open>\<open>PurePosixPath(p).name\<close>: the last component that is neither empty nor a single
  dot, or the empty string when there is none.\<close>

definition path_name :: "string \<Rightarrow> string" where
  "path_name p =
    (let parts = filter (\<lambda>x. x \<noteq> [] \<and> x \<noteq> ''.'') (split_sep p)
     in if parts = [] then [] else last parts)"

text \<open>\<open>s.rfind(c)\<close>: the index of the last occurrence, or \<open>-1\<close>.\<close>

definition rfind :: "string \<Rightarrow> char \<Rightarrow> int" where
  "rfind s c =
    (if c \<in> set s then int (length s) - 1 - int (length (takeWhile (\<lambda>x. x \<noteq> c) (rev s)))
     else - 1)"

text \<open>\<open>PurePosixPath(p).stem\<close>: the name without its last suffix.\<close>

definition path_stem :: "string \<Rightarrow> string" where
  "path_stem p =
    (let nm = path_name p; i = rfind nm (CHR ''.'')
     in if 0 < i \<and> i < int (length nm) - 1 then take (nat i) nm else nm)"

section \<open>\<open>generate_data\<close> (lines 21--168)\<close>

text \<open>A file-system entry, for \<open>os.path.exists\<close> and \<open>os.path.isfile\<close>.\<close>

datatype node = File | Dir

text \<open>A task specification as \<open>utils.read_data\<close> returns it: the key
  \<open>"data_builder"\<close> and the remaining keys, which only the task constructor reads.\<close>

record 'i task_init =
  data_builder :: string
  init :: 'i

text \<open>An entry of the list \<open>builder_names\<close>: a name, or a configuration appended by
  line 56.\<close>

datatype 'c builder_name = BName string | BConfig 'c

text \<open>A value of the dictionary \<open>load_builder_configs\<close> returns: a configuration, or a
  tuple whose second component is a configuration or \<open>None\<close> (lines 79--82).\<close>

datatype 'c builder_cfg = Plain 'c | Tuple "'c option"

text \<open>A constructed builder object: calling it, its initial internal state, its
  \<open>TASK_TYPE\<close> constructor (from the output directory and a task specification) and the
  \<open>is_complete\<close> method of that task type.\<close>

record ('a, 'b, 'i) builder_obj =
  call :: "('a, 'b) data_builder"
  initial :: 'b
  TASK_TYPE :: "string \<Rightarrow> 'i task_init \<Rightarrow> 'a task"
  task_is_complete :: "'a task \<Rightarrow> bool"

text \<open>
  The collaborators \<open>generate_data\<close> calls and the file system it asks. The keyword
  arguments \<open>task_kwargs\<close> and \<open>builder_kwargs\<close> are only forwarded to the constructors
  and are part of \<open>TASK_TYPE\<close> and \<open>get_data_builder\<close> here. \<open>date_suffix\<close> is the clock
  reading of line 104 for the group of the given builder name.
\<close>

record ('a, 'b, 'c, 'i) env =
  fs :: "string \<Rightarrow> node option"
  read_data :: "string \<Rightarrow> string option \<Rightarrow> 'i task_init list"
  match_builders :: "string list \<Rightarrow> 'c builder_name list"
  load_yaml_config :: "string \<Rightarrow> 'c"
  load_builder_configs :: "'c builder_name list \<Rightarrow> (string \<times> 'c builder_cfg) list"
  get_data_builder :: "string \<Rightarrow> 'c \<Rightarrow> string \<Rightarrow> ('a, 'b, 'i) builder_obj"
  date_suffix :: "string \<Rightarrow> string"

definition isfile :: "('a, 'b, 'c, 'i) env \<Rightarrow> string \<Rightarrow> bool" where
  "isfile e p = (fs e p = Some File)"

definition path_exists :: "('a, 'b, 'c, 'i) env \<Rightarrow> string \<Rightarrow> bool" where
  "path_exists e p = (fs e p \<noteq> None)"

text \<open>Lines 32--36: the name of the run.\<close>

definition run_name :: "('a, 'b, 'c, 'i) env \<Rightarrow> string \<Rightarrow> string" where
  "run_name e data_path =
    (if isfile e data_path then path_stem (fst (os_path_split data_path))
     else path_stem data_path)"


text \<open>Lines 48--64: the builder names that are not found. Python builds a set; the
  model keeps one representative of each name, in order of first occurrence.\<close>

definition builder_names_of ::
  "('a, 'b, 'c, 'i) env \<Rightarrow> string list \<Rightarrow> 'c builder_name list" where
  "builder_names_of e builder_list =
    (let builder_names = match_builders e builder_list
     in fold (\<lambda>builder names.
               if isfile e builder then names @ [BConfig (load_yaml_config e builder)]
               else names)
          (filter (\<lambda>builder. BName builder \<notin> set builder_names) builder_list)
          builder_names)"

definition builder_missing ::
  "'c builder_name list \<Rightarrow> string list \<Rightarrow> string list" where
  "builder_missing builder_names builder_list =
     remdups (filter (\<lambda>builder. BName builder \<notin> set builder_names \<and> CHR ''*'' \<notin> set builder)
        builder_list)"

text \<open>\<open>", ".join(xs)\<close>.\<close>

fun join_comma :: "string list \<Rightarrow> string" where
  "join_comma [] = []"
| "join_comma [x] = x"
| "join_comma (x # y # ys) = x @ '', '' @ join_comma (y # ys)"

text \<open>
  Lines 78--158: the body of the loop over the builder groups, for one item of
  \<open>load_builder_configs(builder_names).items()\<close>. The lookup of line 78 and the import
  of line 85 have no effect on the variables of the run and are left out.
\<close>

definition builder_group ::
  "('a, 'b, 'c, 'i) env \<Rightarrow> int \<Rightarrow> bool \<Rightarrow> string \<Rightarrow> string \<Rightarrow> 'i task_init list \<Rightarrow>
   string \<times> 'c builder_cfg \<Rightarrow> 'a run \<Rightarrow> (error \<times> 'a event list) + 'a run" where
  "builder_group e max_gen_requests restart_generation run_nm output_dir task_inits item w =
    (let (builder_name, builder_cfg) = item
     in case (case builder_cfg of Plain c \<Rightarrow> Some c | Tuple c \<Rightarrow> c) of
          None \<Rightarrow> Inr w
        | Some cfg \<Rightarrow>
           (let obj = get_data_builder e builder_name cfg output_dir;
                ts = map (TASK_TYPE obj output_dir)
                       (filter (\<lambda>task_init. data_builder task_init = builder_name) task_inits);
                file = os_path_join output_dir
                        (''discarded_'' @ run_nm @ ''_'' @ date_suffix e builder_name @ ''.log'')
            in case run_group (task_is_complete obj) (call obj) (initial obj) max_gen_requests
                      restart_generation file ts w of
                 Inl err \<Rightarrow> Inl err
               | Inr s \<Rightarrow> Inr \<lparr>total_discarded = total_discarded s,
                               output_file_discarded = output_file_discarded s,
                               events = events s\<rparr>))"

text \<open>Lines 74--158: the loop over the builder groups; it stops at the first exception.\<close>

fun run_groups ::
  "('a, 'b, 'c, 'i) env \<Rightarrow> int \<Rightarrow> bool \<Rightarrow> string \<Rightarrow> string \<Rightarrow> 'i task_init list \<Rightarrow>
   (string \<times> 'c builder_cfg) list \<Rightarrow> 'a run \<Rightarrow> (error \<times> 'a event list) + 'a run" where
  "run_groups e m rg nm od tis [] w = Inr w"
| "run_groups e m rg nm od tis (item # items) w =
    (case builder_group e m rg nm od tis item w of
       Inl err \<Rightarrow> Inl err
     | Inr w1 \<Rightarrow> run_groups e m rg nm od tis items w1)"

text \<open>Lines 160--165: the report after the last group.\<close>

definition report_discarded :: "'a run \<Rightarrow> (error \<times> 'a event list) + 'a run" where
  "report_discarded w =
    (if total_discarded w \<noteq> 0 then
       (case output_file_discarded w of
          None \<Rightarrow> Inl (UnboundLocalError ''output_file_discarded'', events w)
        | Some file \<Rightarrow> Inr (w\<lparr>events := events w @ [LogDiscarded (total_discarded w) file]\<rparr>))
     else Inr w)"

definition generate_data ::
  "('a, 'b, 'c, 'i) env \<Rightarrow> int \<Rightarrow> string \<Rightarrow> string \<Rightarrow> string option \<Rightarrow> bool \<Rightarrow>
   (error \<times> 'a event list) + 'a run" where
  "generate_data e max_gen_requests data_path output_dir include_data_path restart_generation =
    (let nm = run_name e data_path;
         out = os_path_join output_dir nm
     in if data_path \<noteq> [] \<and> path_exists e data_path then
          (let task_inits = read_data e data_path include_data_path;
               builder_list = map data_builder task_inits;
               builder_names = builder_names_of e builder_list;
               missing = builder_missing builder_names builder_list
           in if missing \<noteq> [] then
                Inl (ValueError (''Builder specifications not found: ['' @ join_comma missing @ '']''),
                     [])
              else
                (case run_groups e max_gen_requests restart_generation nm out task_inits
                        (load_builder_configs e builder_names)
                        \<lparr>total_discarded = 0, output_file_discarded = None, events = []\<rparr> of
                   Inl err \<Rightarrow> Inl err
                 | Inr w \<Rightarrow> report_discarded w))
        else Inl (SystemExit (''Error: data path ('' @ data_path @ '') does not exist.''), []))"

section \<open>Reading the trace\<close>

fun is_invoke :: "'a event \<Rightarrow> bool" where
  "is_invoke (Invoke i pool accepted d) = True"
| "is_invoke ev = False"

fun is_save :: "'a event \<Rightarrow> bool" where
  "is_save (Save r new_data) = True"
| "is_save ev = False"

fun is_log_discarded :: "'a event \<Rightarrow> bool" where
  "is_log_discarded (LogDiscarded n file) = True"
| "is_log_discarded ev = False"

text \<open>The discard count a builder invocation returned; other events carry none.\<close>

fun discarded_of :: "'a event \<Rightarrow> int" where
  "discarded_of (Invoke i pool accepted d) = d"
| "discarded_of ev = 0"

definition invocations :: "'a event list \<Rightarrow> 'a event list" where
  "invocations evs = filter is_invoke evs"

definition saves :: "'a event list \<Rightarrow> 'a event list" where
  "saves evs = filter is_save evs"

definition sum_discarded :: "'a event list \<Rightarrow> int" where
  "sum_discarded evs = sum_list (map discarded_of evs)"

section \<open>Notions the properties are stated with\<close>

text \<open>A task's share of the accepted examples: those tagged with its name.\<close>

definition share :: "'a example list \<Rightarrow> 'a task \<Rightarrow> 'a example list" where
  "share accepted t = filter (\<lambda>fid. task_name fid = name t) accepted"

text \<open>A task after its share was appended to its generated examples and persisted.\<close>

definition merged :: "'a example list \<Rightarrow> 'a task \<Rightarrow> 'a task" where
  "merged accepted t =
     t\<lparr>machine_data := machine_data t @ share accepted t,
       persisted := Some (load_data t @ share accepted t)\<rparr>"

text \<open>The references of the group's tasks that are not in the completed list, in the
  order of the group's task list.\<close>

definition not_completed :: "('a, 'b) state \<Rightarrow> nat list" where
  "not_completed s = filter (\<lambda>r. r \<notin> set (completed_tasks s)) [0..<length (heap s)]"

text \<open>The pool as the spec words it: the seed and generated examples of every task of
  the group that is not completed, and of no other task.\<close>

definition pool_of_incomplete :: "('a, 'b) state \<Rightarrow> 'a example list" where
  "pool_of_incomplete s =
     concat (map (\<lambda>r. seed_data (heap s ! r) @ machine_data (heap s ! r)) (not_completed s))"

text \<open>The states at the head of the \<open>while\<close> loop, from the state \<open>s0\<close> the loop is entered
  with: a pass is made only when the loop condition holds.\<close>

inductive at_loop_head ::
  "('a task \<Rightarrow> bool) \<Rightarrow> ('a, 'b) data_builder \<Rightarrow> int \<Rightarrow> ('a, 'b) state \<Rightarrow> ('a, 'b) state \<Rightarrow> bool"
  for is_complete builder max_gen_requests s0 where
    enter: "at_loop_head is_complete builder max_gen_requests s0 s0"
  | pass: "at_loop_head is_complete builder max_gen_requests s0 s \<Longrightarrow>
           tasks s \<noteq> [] \<Longrightarrow> request_idx s \<le> max_gen_requests \<Longrightarrow>
           at_loop_head is_complete builder max_gen_requests s0 (iteration is_complete builder s)"

code_pred at_loop_head .

text \<open>Whether a task's completion check of line 143 holds once its share is appended.\<close>

definition finishing :: "('a task \<Rightarrow> bool) \<Rightarrow> 'a example list \<Rightarrow> 'a task \<Rightarrow> bool" where
  "finishing is_complete accepted t =
     is_complete (t\<lparr>machine_data := machine_data t @ share accepted t\<rparr>)"

text \<open>What the builder returns in the pass made from the state \<open>s\<close>.\<close>

definition accepted_of :: "('a, 'b) data_builder \<Rightarrow> ('a, 'b) state \<Rightarrow> 'a example list" where
  "accepted_of builder s =
     fst (fst (builder (builder_state s) (request_idx s + 1) (data_pool s)))"

definition discarded_by :: "('a, 'b) data_builder \<Rightarrow> ('a, 'b) state \<Rightarrow> int" where
  "discarded_by builder s =
     snd (fst (builder (builder_state s) (request_idx s + 1) (data_pool s)))"

text \<open>The effects between an earlier state and a later one.\<close>

definition new_events :: "('a, 'b) state \<Rightarrow> ('a, 'b) state \<Rightarrow> 'a event list" where
  "new_events s s1 = drop (length (events s)) (events s1)"

text \<open>The accepted examples that are tagged with the name of an active task.\<close>

definition routable :: "('a, 'b) state \<Rightarrow> 'a example list \<Rightarrow> 'a example list" where
  "routable s accepted =
     filter (\<lambda>fid. task_name fid \<in> set (map (\<lambda>r. name (heap s ! r)) (tasks s))) accepted"

text \<open>The running total equals the sum of the discard counts the builders returned so
  far, and the closing report of line 163 has not been made yet.\<close>

definition accounted :: "('a, 'm) run_scheme \<Rightarrow> bool" where
  "accounted w =
     (total_discarded w = sum_discarded (events w) \<and> filter is_log_discarded (events w) = [])"

text \<open>The group's tasks whose completion check does not hold, in the order of the
  group's task list, and the pool of exactly those tasks: the pool as the spec words it,
  by the completion predicate and not by the code's list of completed tasks.\<close>

definition incomplete_tasks :: "('a task \<Rightarrow> bool) \<Rightarrow> ('a, 'b) state \<Rightarrow> nat list" where
  "incomplete_tasks is_complete s =
     filter (\<lambda>r. \<not> is_complete (heap s ! r)) [0..<length (heap s)]"

definition pool_by_predicate :: "('a task \<Rightarrow> bool) \<Rightarrow> ('a, 'b) state \<Rightarrow> 'a example list" where
  "pool_by_predicate is_complete s =
     concat (map (\<lambda>r. seed_data (heap s ! r) @ machine_data (heap s ! r))
       (incomplete_tasks is_complete s))"





section \<open>Example runs\<close>

text \<open>
  Concrete inputs on which the definitions are evaluated. The scenario: task \<open>A\<close> needs
  two generated examples and task \<open>B\<close> one; the first builder call returns one example
  for each and discards three, the later calls return one example for \<open>A\<close>.
\<close>

definition seedA :: "nat example" where "seedA = \<lparr>task_name = ''A'', payload = 0\<rparr>"
definition seedB :: "nat example" where "seedB = \<lparr>task_name = ''B'', payload = 0\<rparr>"
definition genA1 :: "nat example" where "genA1 = \<lparr>task_name = ''A'', payload = 1\<rparr>"
definition genB1 :: "nat example" where "genB1 = \<lparr>task_name = ''B'', payload = 1\<rparr>"
definition genA2 :: "nat example" where "genA2 = \<lparr>task_name = ''A'', payload = 2\<rparr>"

definition scenario_tasks :: "nat task list" where
  "scenario_tasks =
    [\<lparr>name = ''A'', seed_data = [seedA], machine_data = [], persisted = None\<rparr>,
     \<lparr>name = ''B'', seed_data = [seedB], machine_data = [], persisted = None\<rparr>]"

definition scenario_complete :: "nat task \<Rightarrow> bool" where
  "scenario_complete t =
    (if name t = ''A'' then 2 \<le> length (machine_data t) else 1 \<le> length (machine_data t))"

definition scenario_builder :: "(nat, unit) data_builder" where
  "scenario_builder b i pool = (if i = 1 then (([genA1, genB1], 3), b) else (([genA2], 0), b))"

definition scenario_start :: "(nat, unit) state" where
  "scenario_start =
     initial_state scenario_complete () scenario_tasks
       \<lparr>total_discarded = 0, output_file_discarded = None, events = []\<rparr>"

definition never_complete :: "nat task \<Rightarrow> bool" where
  "never_complete t = False"

definition repeat_builder :: "(nat, unit) data_builder" where
  "repeat_builder b i pool = (([genA1], 0), b)"

definition reloaded_task :: "nat task" where
  "reloaded_task =
     \<lparr>name = ''A'', seed_data = [seedA], machine_data = [], persisted = Some [genA1]\<rparr>"

definition empty_run :: "nat run" where
  "empty_run = \<lparr>total_discarded = 0, output_file_discarded = None, events = []\<rparr>"

definition demo_env :: "bool \<Rightarrow> (nat, unit, unit, unit) env" where
  "demo_env seeded =
    \<lparr>fs = (\<lambda>p. if p = ''data'' then Some Dir else None),
     read_data = (\<lambda>p inc. [\<lparr>data_builder = ''b1'', init = ()\<rparr>, \<lparr>data_builder = ''b2'', init = ()\<rparr>]),
     match_builders = map BName,
     load_yaml_config = (\<lambda>p. ()),
     load_builder_configs = (\<lambda>names. [(''b1'', Plain ()), (''b2'', Plain ())]),
     get_data_builder = (\<lambda>nm cfg od.
        \<lparr>call = (\<lambda>b i pool. (([\<lparr>task_name = nm, payload = 1\<rparr>], if nm = ''b1'' then 3 else 2), b)),
         initial = (),
         TASK_TYPE = (\<lambda>od ti.
            \<lparr>name = data_builder ti,
             seed_data = (if seeded then [\<lparr>task_name = data_builder ti, payload = 0\<rparr>] else []),
             machine_data = [], persisted = None\<rparr>),
         task_is_complete = (\<lambda>t. 1 \<le> length (machine_data t))\<rparr>),
     date_suffix = (\<lambda>nm. ''now'')\<rparr>"

definition scenario_second :: "(nat, unit) state" where
  "scenario_second = iteration scenario_complete scenario_builder scenario_start"

definition scenario_third :: "(nat, unit) state" where
  "scenario_third = iteration scenario_complete scenario_builder scenario_second"

text \<open>The outcome of the two-group run of \<open>demo_env\<close>.\<close>

definition demo_result :: "nat run" where
  "demo_result =
     \<lparr>total_discarded = 5,
      output_file_discarded = Some ''out/data/discarded_data_now.log'',
      events =
        [Invoke 1 [\<lparr>task_name = ''b1'', payload = 0\<rparr>] [\<lparr>task_name = ''b1'', payload = 1\<rparr>] 3,
         ProgressUpdate, Save 0 [\<lparr>task_name = ''b1'', payload = 1\<rparr>], LogGenerated 1 3,
         Invoke 1 [\<lparr>task_name = ''b2'', payload = 0\<rparr>] [\<lparr>task_name = ''b2'', payload = 1\<rparr>] 2,
         ProgressUpdate, Save 0 [\<lparr>task_name = ''b2'', payload = 1\<rparr>], LogGenerated 1 2,
         LogDiscarded 5 ''out/data/discarded_data_now.log'']\<rparr>"


text \<open>A resumed group: task \<open>B\<close> finds its one example persisted by an earlier run and
  is complete before the first pass.\<close>

definition resumed_tasks :: "nat task list" where
  "resumed_tasks =
     map (resume False)
       [\<lparr>name = ''A'', seed_data = [seedA], machine_data = [], persisted = None\<rparr>,
        \<lparr>name = ''B'', seed_data = [seedB], machine_data = [], persisted = Some [genB1]\<rparr>]"

definition resumed_start :: "(nat, unit) state" where
  "resumed_start = initial_state scenario_complete () resumed_tasks empty_run"


section \<open>The merge step, task by task\<close>

lemma merge_task_sel [simp]:
  "tasks (merge_task ic fd r s) = tasks s"
  "request_idx (merge_task ic fd r s) = request_idx s"
  "builder_state (merge_task ic fd r s) = builder_state s"
  "total_discarded (merge_task ic fd r s) = total_discarded s"
  "output_file_discarded (merge_task ic fd r s) = output_file_discarded s"
  by (simp_all add: merge_task_def Let_def)

lemma merge_task_heap:
  "heap (merge_task ic fd r s) = (heap s)[r := merged fd (heap s ! r)]"
  by (simp add: merge_task_def Let_def merged_def share_def save_data_def load_data_def)

lemma merge_task_completed:
  "completed_tasks (merge_task ic fd r s) =
     completed_tasks s @
       (if finishing ic fd (heap s ! r) then [r] else [])"
  by (simp add: merge_task_def Let_def share_def finishing_def)

lemma merge_task_events:
  "events (merge_task ic fd r s) =
     events s @
       (if finishing ic fd (heap s ! r) then [ProgressUpdate] else []) @
       [Save r (share fd (heap s ! r))]"
  by (simp add: merge_task_def Let_def share_def finishing_def)

lemma fold_merge_sel [simp]:
  "tasks (fold (merge_task ic fd) rs s) = tasks s"
  "request_idx (fold (merge_task ic fd) rs s) = request_idx s"
  "builder_state (fold (merge_task ic fd) rs s) = builder_state s"
  "total_discarded (fold (merge_task ic fd) rs s) = total_discarded s"
  "output_file_discarded (fold (merge_task ic fd) rs s) = output_file_discarded s"
  by (induction rs arbitrary: s; simp)+

lemma fold_merge_length [simp]:
  "length (heap (fold (merge_task ic fd) rs s)) = length (heap s)"
  by (induction rs arbitrary: s) (simp_all add: merge_task_heap)

lemma fold_merge_heap_other:
  "r \<notin> set rs \<Longrightarrow> heap (fold (merge_task ic fd) rs s) ! r = heap s ! r"
  by (induction rs arbitrary: s) (simp_all add: merge_task_heap)

lemma fold_merge_heap_member:
  "distinct rs \<Longrightarrow> r \<in> set rs \<Longrightarrow> r < length (heap s) \<Longrightarrow>
   heap (fold (merge_task ic fd) rs s) ! r = merged fd (heap s ! r)"
proof (induction rs arbitrary: s)
  case Nil
  then show ?case by simp
next
  case (Cons a rs)
  show ?case
  proof (cases "r = a")
    case True
    with Cons.prems show ?thesis
      by (simp add: fold_merge_heap_other merge_task_heap)
  next
    case False
    with Cons.prems have "heap (fold (merge_task ic fd) rs (merge_task ic fd a s)) ! r
        = merged fd (heap (merge_task ic fd a s) ! r)"
      by (intro Cons.IH) (simp_all add: merge_task_heap)
    with False show ?thesis by (simp add: merge_task_heap)
  qed
qed

lemma merge_task_heap_other:
  "r \<noteq> a \<Longrightarrow> heap (merge_task ic fd a s) ! r = heap s ! r"
  by (simp add: merge_task_heap)

lemma fold_merge_completed:
  "distinct rs \<Longrightarrow>
   completed_tasks (fold (merge_task ic fd) rs s) =
     completed_tasks s @ filter (\<lambda>r. finishing ic fd (heap s ! r)) rs"
proof (induction rs arbitrary: s)
  case Nil
  then show ?case by simp
next
  case (Cons a rs)
  have same: "heap (merge_task ic fd a s) ! r = heap s ! r" if "r \<in> set rs" for r
    using that Cons.prems by (intro merge_task_heap_other) auto
  have "filter (\<lambda>r. finishing ic fd (heap (merge_task ic fd a s) ! r)) rs
      = filter (\<lambda>r. finishing ic fd (heap s ! r)) rs"
    by (rule filter_cong) (simp_all add: same)
  with Cons show ?case
    by (simp add: merge_task_completed)
qed

lemma fold_merge_events:
  "distinct rs \<Longrightarrow>
   events (fold (merge_task ic fd) rs s) =
     events s @ concat (map (\<lambda>r. (if finishing ic fd (heap s ! r) then [ProgressUpdate] else [])
                                @ [Save r (share fd (heap s ! r))]) rs)"
proof (induction rs arbitrary: s)
  case Nil
  then show ?case by simp
next
  case (Cons a rs)
  have same: "heap (merge_task ic fd a s) ! r = heap s ! r" if "r \<in> set rs" for r
    using that Cons.prems by (intro merge_task_heap_other) auto
  have eq: "map (\<lambda>r. (if finishing ic fd (heap (merge_task ic fd a s) ! r) then [ProgressUpdate] else [])
                                @ [Save r (share fd (heap (merge_task ic fd a s) ! r))]) rs
      = map (\<lambda>r. (if finishing ic fd (heap s ! r) then [ProgressUpdate] else [])
                                @ [Save r (share fd (heap s ! r))]) rs"
    by (rule map_cong) (simp_all add: same)
  have "events (fold (merge_task ic fd) (a # rs) s) =
      events (merge_task ic fd a s) @
      concat (map (\<lambda>r. (if finishing ic fd (heap (merge_task ic fd a s) ! r) then [ProgressUpdate] else [])
                                @ [Save r (share fd (heap (merge_task ic fd a s) ! r))]) rs)"
    using Cons.prems by (simp add: Cons.IH)
  then show ?case
    unfolding eq by (simp add: merge_task_events)
qed

section \<open>One pass of the loop, field by field\<close>

text \<open>The loop equation is applied by hand, never by the simplifier.\<close>

declare gen_loop.simps [simp del]

lemma iteration_unfold:
  "iteration ic b s =
    (let s2 = merge_all ic (accepted_of b s)
                (s\<lparr>request_idx := request_idx s + 1,
                   builder_state := snd (b (builder_state s) (request_idx s + 1) (data_pool s)),
                   events := events s @ [Invoke (request_idx s + 1) (data_pool s)
                                           (accepted_of b s) (discarded_by b s)]\<rparr>);
         s3 = s2\<lparr>tasks := filter (\<lambda>r. r \<notin> set (completed_tasks s2)) (tasks s2),
                 total_discarded := total_discarded s2 + (0 + discarded_by b s)\<rparr>
     in s3\<lparr>events := events s3 @
          [LogGenerated
             (sum_list (map (\<lambda>r. length (machine_data (heap s3 ! r)))
                (tasks s3 @ completed_tasks s3)))
             (0 + discarded_by b s)]\<rparr>)"
  by (simp add: iteration_def accepted_of_def discarded_by_def Let_def split: prod.splits)

lemma iteration_heap_length [simp]:
  "length (heap (iteration ic b s)) = length (heap s)"
  by (simp add: iteration_unfold merge_all_def Let_def)

lemma iteration_request_idx [simp]:
  "request_idx (iteration ic b s) = request_idx s + 1"
  by (simp add: iteration_unfold merge_all_def Let_def)

lemma iteration_total_discarded:
  "total_discarded (iteration ic b s) = total_discarded s + discarded_by b s"
  by (simp add: iteration_unfold merge_all_def Let_def)

lemma iteration_output_file [simp]:
  "output_file_discarded (iteration ic b s) = output_file_discarded s"
  by (simp add: iteration_unfold merge_all_def Let_def)

lemma iteration_completed:
  "distinct (tasks s) \<Longrightarrow>
   completed_tasks (iteration ic b s) =
     completed_tasks s @ filter (\<lambda>r. finishing ic (accepted_of b s) (heap s ! r)) (tasks s)"
  by (simp add: iteration_unfold merge_all_def Let_def fold_merge_completed)

lemma iteration_tasks:
  "distinct (tasks s) \<Longrightarrow>
   tasks (iteration ic b s) =
     filter (\<lambda>r. r \<notin> set (completed_tasks s) \<and> \<not> finishing ic (accepted_of b s) (heap s ! r))
       (tasks s)"
  by (simp add: iteration_unfold merge_all_def Let_def fold_merge_completed cong: filter_cong)

lemma iteration_heap_other:
  "r \<notin> set (tasks s) \<Longrightarrow> heap (iteration ic b s) ! r = heap s ! r"
  by (simp add: iteration_unfold merge_all_def Let_def fold_merge_heap_other)

lemma iteration_heap_member:
  "distinct (tasks s) \<Longrightarrow> r \<in> set (tasks s) \<Longrightarrow> r < length (heap s) \<Longrightarrow>
   heap (iteration ic b s) ! r = merged (accepted_of b s) (heap s ! r)"
  by (simp add: iteration_unfold merge_all_def Let_def fold_merge_heap_member)

lemma iteration_events:
  "distinct (tasks s) \<Longrightarrow>
   \<exists>n. events (iteration ic b s) =
     events s @
     Invoke (request_idx s + 1) (data_pool s) (accepted_of b s) (discarded_by b s) #
     concat (map (\<lambda>r. (if finishing ic (accepted_of b s) (heap s ! r) then [ProgressUpdate] else [])
                       @ [Save r (share (accepted_of b s) (heap s ! r))]) (tasks s)) @
     [LogGenerated n (discarded_by b s)]"
  by (simp add: iteration_unfold merge_all_def Let_def fold_merge_events)

lemma not_completed_distinct: "distinct (not_completed s)"
  by (simp add: not_completed_def)

lemma consistent_initial: "tasks (initial_state ic b ts w) = not_completed (initial_state ic b ts w)"
  by (simp add: initial_state_def not_completed_def Let_def)

lemma consistent_iteration:
  assumes "tasks s = not_completed s"
  shows "tasks (iteration ic b s) = not_completed (iteration ic b s)"
proof -
  have d: "distinct (tasks s)" using assms by (simp add: not_completed_distinct)
  show ?thesis
    using assms
    by (simp add: iteration_tasks[OF d] iteration_completed[OF d] not_completed_def
        cong: filter_cong) (auto intro: filter_cong)
qed

lemma at_loop_head_consistent:
  "at_loop_head ic b m s0 s \<Longrightarrow> tasks s0 = not_completed s0 \<Longrightarrow> tasks s = not_completed s"
  by (induction rule: at_loop_head.induct) (simp_all add: consistent_iteration)

lemma at_loop_head_trans:
  "at_loop_head ic b m s1 s2 \<Longrightarrow> at_loop_head ic b m s0 s1 \<Longrightarrow> at_loop_head ic b m s0 s2"
  by (induction rule: at_loop_head.induct) (auto intro: at_loop_head.intros)

lemma gen_loop_at_loop_head:
  "at_loop_head ic b m s (gen_loop ic b m s)"
proof (induction ic b m s rule: gen_loop.induct)
  case (1 ic b m s)
  show ?case
  proof (cases "tasks s \<noteq> [] \<and> request_idx s \<le> m")
    case True
    then have "at_loop_head ic b m (iteration ic b s) (gen_loop ic b m (iteration ic b s))"
      by (intro "1.IH") simp_all
    moreover have "at_loop_head ic b m s (iteration ic b s)"
      using True by (auto intro: at_loop_head.intros)
    ultimately have "at_loop_head ic b m s (gen_loop ic b m (iteration ic b s))"
      by (rule at_loop_head_trans)
    with True show ?thesis by (subst gen_loop.simps) simp
  next
    case False
    then show ?thesis by (subst gen_loop.simps) (auto intro: at_loop_head.intros)
  qed
qed

section \<open>The iteration budget\<close>

text \<open>
  C1. The claim: a group whose tasks never reach completion gets exactly
  \<open>max_gen_requests\<close> builder invocations. The loop of line 127 tests
  \<open>request_idx <= max_gen_requests\<close> with a counter that starts at 0 and is incremented
  inside the body, so it makes one pass more: with \<open>max_gen_requests = 2\<close>, one task
  that is never complete and a builder that accepts nothing, the builder is invoked
  three times, the last time with request index 3.
\<close>

theorem budget_overrun_by_one:
  "(case run_group (\<lambda>t. False) (\<lambda>b i pool. (([], 0), b)) () 2 False ''discarded.log''
           [\<lparr>name = ''A'', seed_data = [\<lparr>task_name = ''A'', payload = ()\<rparr>],
             machine_data = [], persisted = None\<rparr>]
           \<lparr>total_discarded = 0, output_file_discarded = None, events = []\<rparr> of
      Inl err \<Rightarrow> []
    | Inr s \<Rightarrow> invocations (events s)) =
   [Invoke 1 [\<lparr>task_name = ''A'', payload = ()\<rparr>] [] 0,
    Invoke 2 [\<lparr>task_name = ''A'', payload = ()\<rparr>] [] 0,
    Invoke 3 [\<lparr>task_name = ''A'', payload = ()\<rparr>] [] 0]"
  by code_simp

section \<open>Properties of the loop and of the run\<close>

lemma consistent_disjoint:
  "tasks s = not_completed s \<Longrightarrow> set (tasks s) \<inter> set (completed_tasks s) = {}"
  by (auto simp: not_completed_def)

lemma consistent_in_range:
  "tasks s = not_completed s \<Longrightarrow> r \<in> set (tasks s) \<Longrightarrow> r < length (heap s)"
  by (auto simp: not_completed_def)

lemma new_events_iteration:
  "distinct (tasks s) \<Longrightarrow>
   \<exists>n. new_events s (iteration ic b s) =
     Invoke (request_idx s + 1) (data_pool s) (accepted_of b s) (discarded_by b s) #
     concat (map (\<lambda>r. (if finishing ic (accepted_of b s) (heap s ! r) then [ProgressUpdate] else [])
                       @ [Save r (share (accepted_of b s) (heap s ! r))]) (tasks s)) @
     [LogGenerated n (discarded_by b s)]"
  using iteration_events[of s ic b] by (auto simp: new_events_def)

lemma invocations_merge_events:
  "invocations (concat (map (\<lambda>r. (if P r then [ProgressUpdate] else []) @ [Save r (f r)]) rs)) = []"
  by (induction rs) (simp_all add: invocations_def)

lemma saves_merge_events:
  "saves (concat (map (\<lambda>r. (if P r then [ProgressUpdate] else []) @ [Save r (f r)]) rs))
     = map (\<lambda>r. Save r (f r)) rs"
  by (induction rs) (simp_all add: saves_def)

lemma invocations_iteration:
  assumes "distinct (tasks s)"
  shows "invocations (new_events s (iteration ic b s)) =
     [Invoke (request_idx s + 1) (data_pool s) (accepted_of b s) (discarded_by b s)]"
proof -
  from new_events_iteration[OF assms, of ic b] obtain n where
    "new_events s (iteration ic b s) =
     Invoke (request_idx s + 1) (data_pool s) (accepted_of b s) (discarded_by b s) #
     concat (map (\<lambda>r. (if finishing ic (accepted_of b s) (heap s ! r) then [ProgressUpdate] else [])
                       @ [Save r (share (accepted_of b s) (heap s ! r))]) (tasks s)) @
     [LogGenerated n (discarded_by b s)]" ..
  then show ?thesis
    using invocations_merge_events[of "\<lambda>r. finishing ic (accepted_of b s) (heap s ! r)"
        "\<lambda>r. share (accepted_of b s) (heap s ! r)" "tasks s"]
    by (simp add: invocations_def)
qed

lemma saves_iteration:
  assumes "distinct (tasks s)"
  shows "saves (new_events s (iteration ic b s)) =
     map (\<lambda>r. Save r (share (accepted_of b s) (heap s ! r))) (tasks s)"
proof -
  from new_events_iteration[OF assms, of ic b] obtain n where
    "new_events s (iteration ic b s) =
     Invoke (request_idx s + 1) (data_pool s) (accepted_of b s) (discarded_by b s) #
     concat (map (\<lambda>r. (if finishing ic (accepted_of b s) (heap s ! r) then [ProgressUpdate] else [])
                       @ [Save r (share (accepted_of b s) (heap s ! r))]) (tasks s)) @
     [LogGenerated n (discarded_by b s)]" ..
  then show ?thesis
    using saves_merge_events[of "\<lambda>r. finishing ic (accepted_of b s) (heap s ! r)"
        "\<lambda>r. share (accepted_of b s) (heap s ! r)" "tasks s"]
    by (simp add: saves_def)
qed

lemma data_pool_consistent:
  "tasks s = not_completed s \<Longrightarrow> data_pool s = pool_of_incomplete s"
  by (simp add: data_pool_def pool_of_incomplete_def)

lemma completed_by_predicate_initial:
  "r < length (heap (initial_state ic b ts w)) \<Longrightarrow>
   (r \<in> set (completed_tasks (initial_state ic b ts w))) = ic (heap (initial_state ic b ts w) ! r)"
  by (simp add: initial_state_def Let_def)

lemma ic_merged:
  "\<forall>t p. ic (t\<lparr>persisted := p\<rparr>) = ic t \<Longrightarrow> ic (merged acc t) = finishing ic acc t"
proof -
  assume ign: "\<forall>t p. ic (t\<lparr>persisted := p\<rparr>) = ic t"
  have "merged acc t =
      (t\<lparr>machine_data := machine_data t @ share acc t\<rparr>)\<lparr>persisted := Some (load_data t @ share acc t)\<rparr>"
    by (simp add: merged_def)
  then show ?thesis using ign by (simp add: finishing_def)
qed

lemma completed_by_predicate_iteration:
  assumes ign: "\<forall>t p. ic (t\<lparr>persisted := p\<rparr>) = ic t"
    and c: "tasks s = not_completed s"
    and inv: "\<forall>r<length (heap s). (r \<in> set (completed_tasks s)) = ic (heap s ! r)"
  shows "\<forall>r<length (heap (iteration ic b s)).
           (r \<in> set (completed_tasks (iteration ic b s))) = ic (heap (iteration ic b s) ! r)"
proof (intro allI impI)
  fix r assume "r < length (heap (iteration ic b s))"
  then have r: "r < length (heap s)" by simp
  have d: "distinct (tasks s)" using c by (simp add: not_completed_distinct)
  show "(r \<in> set (completed_tasks (iteration ic b s))) = ic (heap (iteration ic b s) ! r)"
  proof (cases "r \<in> set (tasks s)")
    case True
    then have "r \<notin> set (completed_tasks s)" using consistent_disjoint[OF c] by blast
    with True r show ?thesis
      by (simp add: iteration_completed[OF d] iteration_heap_member[OF d] ic_merged[OF ign])
  next
    case False
    with r c have "r \<in> set (completed_tasks s)" by (auto simp: not_completed_def)
    with False r inv show ?thesis
      by (simp add: iteration_completed[OF d] iteration_heap_other)
  qed
qed

lemma completed_by_predicate:
  "at_loop_head ic b m s0 s \<Longrightarrow> \<forall>t p. ic (t\<lparr>persisted := p\<rparr>) = ic t \<Longrightarrow>
   tasks s0 = not_completed s0 \<Longrightarrow>
   \<forall>r<length (heap s0). (r \<in> set (completed_tasks s0)) = ic (heap s0 ! r) \<Longrightarrow>
   \<forall>r<length (heap s). (r \<in> set (completed_tasks s)) = ic (heap s ! r)"
proof (induction rule: at_loop_head.induct)
  case enter
  then show ?case by simp
next
  case (pass s)
  then have "tasks s = not_completed s" by (auto intro: at_loop_head_consistent)
  with pass show ?case by (intro completed_by_predicate_iteration) simp_all
qed

lemma active_by_predicate:
  assumes "tasks s = not_completed s"
    and "\<forall>r<length (heap s). (r \<in> set (completed_tasks s)) = ic (heap s ! r)"
  shows "tasks s = incomplete_tasks ic s"
proof -
  have "filter (\<lambda>r. r \<notin> set (completed_tasks s)) [0..<length (heap s)] =
        filter (\<lambda>r. \<not> ic (heap s ! r)) [0..<length (heap s)]"
    using assms(2) by (intro filter_cong) simp_all
  with assms(1) show ?thesis by (simp add: not_completed_def incomplete_tasks_def)
qed

text \<open>
  C2. For a completion predicate that is evaluated from the task's generated examples (it
  does not read the persisted file), at every head of the loop of a builder group, the
  first one after a resume included: the active list is exactly the list of the group's
  tasks whose completion predicate does not hold, the completed list holds exactly the
  tasks whose predicate holds, and the pool the code builds equals the pool of exactly
  the incomplete tasks; the pass made from that state invokes the builder once, with
  that pool.
\<close>

theorem pool_union_correct:
  assumes "at_loop_head ic b m (initial_state ic b0 ts w) s"
    and "\<forall>t p. ic (t\<lparr>persisted := p\<rparr>) = ic t"
  shows "data_pool s = pool_by_predicate ic s \<and>
         tasks s = incomplete_tasks ic s \<and>
         (\<forall>r<length (heap s). (r \<in> set (completed_tasks s)) = ic (heap s ! r)) \<and>
         data_pool s = pool_of_incomplete s \<and>
         set (tasks s) \<inter> set (completed_tasks s) = {} \<and>
         invocations (new_events s (iteration ic b s)) =
           [Invoke (request_idx s + 1) (pool_by_predicate ic s) (accepted_of b s)
              (discarded_by b s)]"
proof -
  let ?s0 = "initial_state ic b0 ts w"
  have c: "tasks s = not_completed s"
    using assms(1) by (rule at_loop_head_consistent) (rule consistent_initial)
  then have d: "distinct (tasks s)" by (simp add: not_completed_distinct)
  have p0: "\<forall>r<length (heap ?s0). (r \<in> set (completed_tasks ?s0)) = ic (heap ?s0 ! r)"
    by (simp add: completed_by_predicate_initial)
  have p: "\<forall>r<length (heap s). (r \<in> set (completed_tasks s)) = ic (heap s ! r)"
    using assms(1,2) consistent_initial p0 by (rule completed_by_predicate)
  have a: "tasks s = incomplete_tasks ic s"
    using c p by (rule active_by_predicate)
  have pool: "data_pool s = pool_by_predicate ic s"
    unfolding data_pool_def pool_by_predicate_def a[symmetric] ..
  show ?thesis
    using pool a p data_pool_consistent[OF c] consistent_disjoint[OF c]
      invocations_iteration[OF d, of ic b]
    by simp
qed

text \<open>
  C10. In the pass made from any loop head of a builder group, the \<open>save_data\<close> calls
  are exactly one per task that is active at the start of the pass, in the order of the
  active list, each with that task's share of the accepted examples (the empty list when
  nothing is tagged for it); the active tasks are distinct and none of them is in the
  completed list, so no save is issued for a completed task.
\<close>

theorem save_once_per_active_task:
  assumes "at_loop_head ic b m (initial_state ic b0 ts w) s"
  shows "saves (new_events s (iteration ic b s)) =
           map (\<lambda>r. Save r (share (accepted_of b s) (heap s ! r))) (tasks s) \<and>
         distinct (tasks s) \<and>
         set (tasks s) \<inter> set (completed_tasks s) = {}"
proof -
  have c: "tasks s = not_completed s"
    using assms by (rule at_loop_head_consistent) (rule consistent_initial)
  then have d: "distinct (tasks s)" by (simp add: not_completed_distinct)
  show ?thesis
    using saves_iteration[OF d, of ic b] consistent_disjoint[OF c] d by simp
qed

lemma merge_task_name:
  "name (heap (merge_task ic fd a s) ! r) = name (heap s ! r)"
proof (cases "r = a \<and> a < length (heap s)")
  case True
  then show ?thesis by (simp add: merge_task_heap merged_def)
next
  case False
  then show ?thesis by (cases "r = a") (simp_all add: merge_task_heap list_update_beyond)
qed

lemma share_routable:
  "name t \<in> N \<Longrightarrow> share (filter (\<lambda>fid. task_name fid \<in> N) fd) t = share fd t"
  by (auto simp: share_def intro: filter_cong)

lemma merge_task_cong_share:
  "share fd1 (heap s ! r) = share fd2 (heap s ! r) \<Longrightarrow> merge_task ic fd1 r s = merge_task ic fd2 r s"
  by (simp add: merge_task_def share_def Let_def)

lemma fold_merge_routable:
  "\<forall>r\<in>set rs. name (heap s ! r) \<in> N \<Longrightarrow>
   fold (merge_task ic fd) rs s = fold (merge_task ic (filter (\<lambda>fid. task_name fid \<in> N) fd)) rs s"
proof (induction rs arbitrary: s)
  case Nil
  then show ?case by simp
next
  case (Cons a rs)
  let ?fd = "filter (\<lambda>fid. task_name fid \<in> N) fd"
  have one: "merge_task ic fd a s = merge_task ic ?fd a s"
    using Cons.prems by (intro merge_task_cong_share) (simp add: share_routable)
  have "\<forall>r\<in>set rs. name (heap (merge_task ic fd a s) ! r) \<in> N"
    using Cons.prems by (simp add: merge_task_name)
  then have "fold (merge_task ic fd) rs (merge_task ic fd a s)
      = fold (merge_task ic ?fd) rs (merge_task ic fd a s)"
    by (rule Cons.IH)
  then show ?case by (simp add: one)
qed

text \<open>
  C9. The partition step (lines 140--146) yields the same state whether or not the
  accepted examples contain examples tagged with a name that no active task has: such
  examples are in no task's share. The step has no error branch.
\<close>

theorem unroutable_examples_dropped:
  "merge_all ic accepted s = merge_all ic (routable s accepted) s"
  unfolding merge_all_def routable_def
  by (rule fold_merge_routable) simp

lemma later_completed:
  "at_loop_head ic b m s s1 \<Longrightarrow> tasks s = not_completed s \<Longrightarrow> r \<in> set (completed_tasks s) \<Longrightarrow>
   r \<in> set (completed_tasks s1) \<and> r \<notin> set (tasks s1) \<and> heap s1 ! r = heap s ! r"
proof (induction rule: at_loop_head.induct)
  case enter
  then show ?case by (auto simp: not_completed_def)
next
  case (pass s1)
  then have c: "tasks s1 = not_completed s1"
    by (auto intro: at_loop_head_consistent)
  then have d: "distinct (tasks s1)" by (simp add: not_completed_distinct)
  from pass have r: "r \<in> set (completed_tasks s1)" "r \<notin> set (tasks s1)" "heap s1 ! r = heap s ! r"
    by simp_all
  show ?case
    using r by (simp add: iteration_completed[OF d] iteration_tasks[OF d] iteration_heap_other)
qed

lemma data_pool_other:
  "r \<notin> set (tasks s) \<Longrightarrow> data_pool (s\<lparr>heap := (heap s)[r := t]\<rparr>) = data_pool s"
proof -
  assume "r \<notin> set (tasks s)"
  then have "(heap s)[r := t] ! q = heap s ! q" if "q \<in> set (tasks s)" for q
    using that by (intro nth_list_update_neq) auto
  then have "concat (map (\<lambda>q. seed_data ((heap s)[r := t] ! q) @ machine_data ((heap s)[r := t] ! q)) (tasks s))
      = concat (map (\<lambda>q. seed_data (heap s ! q) @ machine_data (heap s ! q)) (tasks s))"
    by (intro arg_cong[where f = concat] map_cong) simp_all
  then show ?thesis by (simp add: data_pool_def)
qed

lemma save_in_new_events:
  assumes "distinct (tasks s)" "r \<in> set (tasks s)"
  shows "Save r (share (accepted_of b s) (heap s ! r)) \<in> set (new_events s (iteration ic b s))"
proof -
  have "Save r (share (accepted_of b s) (heap s ! r)) \<in> set (saves (new_events s (iteration ic b s)))"
    using assms by (simp add: saves_iteration)
  then show ?thesis by (simp add: saves_def)
qed

text \<open>
  C4. A task whose completion predicate holds when the loop is entered is put on the
  completed list by the pre-filter and is not active; for a predicate that does not read
  the persisted file, a task whose predicate holds at any loop head is on the completed
  list and not active. If the completion check of an active task holds after its share
  of a pass was appended, then after that pass the task is in the completed list and not
  in the active list, its share has been appended to its generated examples and
  persisted, and the save call for that share is among the effects of the pass. A task
  in the completed list stays there at every later loop head, is never active again, is
  no longer modified, and the pool does not depend on it.
\<close>

theorem completed_task_is_retired:
  assumes "at_loop_head ic b m (initial_state ic b0 ts w) s"
  shows "(r < length ts \<and> ic (ts ! r) \<longrightarrow>
            r \<in> set (completed_tasks (initial_state ic b0 ts w)) \<and>
            r \<notin> set (tasks (initial_state ic b0 ts w))) \<and>
         ((\<forall>t p. ic (t\<lparr>persisted := p\<rparr>) = ic t) \<and> r < length (heap s) \<and> ic (heap s ! r) \<longrightarrow>
            r \<in> set (completed_tasks s) \<and> r \<notin> set (tasks s)) \<and>
         (r \<in> set (tasks s) \<and> finishing ic (accepted_of b s) (heap s ! r) \<longrightarrow>
            r \<in> set (completed_tasks (iteration ic b s)) \<and>
            r \<notin> set (tasks (iteration ic b s)) \<and>
            heap (iteration ic b s) ! r = merged (accepted_of b s) (heap s ! r) \<and>
            Save r (share (accepted_of b s) (heap s ! r)) \<in> set (new_events s (iteration ic b s))) \<and>
         (r \<in> set (completed_tasks s) \<and> at_loop_head ic b m s s1 \<longrightarrow>
            r \<in> set (completed_tasks s1) \<and> r \<notin> set (tasks s1) \<and> heap s1 ! r = heap s ! r \<and>
            data_pool (s1\<lparr>heap := (heap s1)[r := t]\<rparr>) = data_pool s1)"
proof -
  let ?s0 = "initial_state ic b0 ts w"
  have c: "tasks s = not_completed s"
    using assms by (rule at_loop_head_consistent) (rule consistent_initial)
  then have d: "distinct (tasks s)" by (simp add: not_completed_distinct)
  have entry: "r \<in> set (completed_tasks ?s0) \<and> r \<notin> set (tasks ?s0)"
    if "r < length ts" "ic (ts ! r)"
    using that by (simp add: initial_state_def Let_def)
  have head: "r \<in> set (completed_tasks s) \<and> r \<notin> set (tasks s)"
    if ign: "\<forall>t p. ic (t\<lparr>persisted := p\<rparr>) = ic t" and r: "r < length (heap s)" "ic (heap s ! r)"
  proof -
    have p0: "\<forall>r<length (heap ?s0). (r \<in> set (completed_tasks ?s0)) = ic (heap ?s0 ! r)"
      by (simp add: completed_by_predicate_initial)
    have "\<forall>r<length (heap s). (r \<in> set (completed_tasks s)) = ic (heap s ! r)"
      using assms ign consistent_initial p0 by (rule completed_by_predicate)
    with r have "r \<in> set (completed_tasks s)" by simp
    with consistent_disjoint[OF c] show ?thesis by blast
  qed
  have second: "r \<in> set (completed_tasks (iteration ic b s)) \<and>
            r \<notin> set (tasks (iteration ic b s)) \<and>
            heap (iteration ic b s) ! r = merged (accepted_of b s) (heap s ! r) \<and>
            Save r (share (accepted_of b s) (heap s ! r)) \<in> set (new_events s (iteration ic b s))"
    if "r \<in> set (tasks s)" "finishing ic (accepted_of b s) (heap s ! r)"
    using that consistent_in_range[OF c]
    by (simp add: iteration_completed[OF d] iteration_tasks[OF d] iteration_heap_member[OF d]
        save_in_new_events[OF d])
  have third: "r \<in> set (completed_tasks s1) \<and> r \<notin> set (tasks s1) \<and> heap s1 ! r = heap s ! r \<and>
            data_pool (s1\<lparr>heap := (heap s1)[r := t]\<rparr>) = data_pool s1"
    if "r \<in> set (completed_tasks s)" "at_loop_head ic b m s s1"
    using later_completed[OF that(2) c that(1)] by (simp add: data_pool_other)
  from entry head second third show ?thesis by blast
qed

text \<open>
  C3, as amended. Running the resume step twice gives the same task as running it once
  (line 120 assigns the loaded examples). After a reload, merging a pass appends exactly
  the task's share of the accepted examples behind the reloaded ones, in memory and in
  the persisted output alike; the number of occurrences of an example changes only if
  the builder returned that example. There is no deduplication.
\<close>

theorem reload_is_assignment:
  "resume rg (resume rg t) = resume rg t \<and>
   (persisted t = Some d \<and> r < length (heap s) \<and> heap s ! r = resume False t \<longrightarrow>
      machine_data (heap s ! r) = d \<and>
      machine_data (heap (merge_task ic accepted r s) ! r) = d @ share accepted t \<and>
      persisted (heap (merge_task ic accepted r s) ! r) = Some (d @ share accepted t) \<and>
      (\<forall>e. e \<notin> set (share accepted t) \<longrightarrow>
         count_list (machine_data (heap (merge_task ic accepted r s) ! r)) e = count_list d e))"
proof -
  have idem: "resume rg (resume rg t) = resume rg t"
    by (cases "persisted t") (simp_all add: resume_def clear_data_def load_data_def Let_def)
  have after: "machine_data (heap s ! r) = d \<and>
      machine_data (heap (merge_task ic accepted r s) ! r) = d @ share accepted t \<and>
      persisted (heap (merge_task ic accepted r s) ! r) = Some (d @ share accepted t) \<and>
      (\<forall>e. e \<notin> set (share accepted t) \<longrightarrow>
         count_list (machine_data (heap (merge_task ic accepted r s) ! r)) e = count_list d e)"
    if "persisted t = Some d" "r < length (heap s)" "heap s ! r = resume False t"
    using that
    by (simp add: merge_task_heap merged_def resume_def load_data_def share_def Let_def)
  from idem after show ?thesis by blast
qed

text \<open>
  C3, as stated, fails: with \<open>genA1\<close> persisted by an earlier run, a builder that
  returns \<open>genA1\<close> once more makes the task hold it twice, in memory and in the
  persisted output.
\<close>

theorem reload_then_append_counterexample:
  "load_data reloaded_task = [genA1] \<and>
   map machine_data
     (heap (gen_loop never_complete repeat_builder 0
        (initial_state never_complete () (map (resume False) [reloaded_task]) empty_run)))
   = [[genA1, genA1]] \<and>
   map persisted
     (heap (gen_loop never_complete repeat_builder 0
        (initial_state never_complete () (map (resume False) [reloaded_task]) empty_run)))
   = [Some [genA1, genA1]]"
  by code_simp

text \<open>
  C8. When the data path does not exist, \<open>generate_data\<close> raises \<open>SystemExit\<close>
  with a message that contains the path, and the trace at the raise is empty: no builder
  was constructed or invoked and nothing was saved.
\<close>

theorem missing_data_path_is_fatal:
  "\<not> path_exists e data_path \<Longrightarrow>
   generate_data e max_gen_requests data_path output_dir include_data_path restart_generation =
     Inl (SystemExit (''Error: data path ('' @ data_path @ '') does not exist.''), [])"
  by (simp add: generate_data_def Let_def)

text \<open>
  C7. When the tasks constructed for a builder group have no seed example at all, the
  run raises \<open>SystemExit\<close> in that group: the groups after it are not processed, and the
  trace at the raise is the trace the group was entered with, so the group's builder was
  not invoked.
\<close>

theorem no_seeds_is_fatal:
  assumes "snd item = Plain cfg \<or> snd item = Tuple (Some cfg)"
    and "\<forall>ti\<in>set tis. data_builder ti = fst item \<longrightarrow>
           seed_data (TASK_TYPE (get_data_builder e (fst item) cfg od) od ti) = []"
  shows "run_groups e m rg nm od tis (item # items) w =
           Inl (SystemExit ''Nothing to generate. Exiting.'', events w)"
proof -
  obtain bn bc where item: "item = (bn, bc)" by (cases item)
  have cfg: "(case bc of Plain c \<Rightarrow> Some c | Tuple c \<Rightarrow> c) = Some cfg"
    using assms(1) item by auto
  have "concat (map seed_data (map (TASK_TYPE (get_data_builder e bn cfg od) od)
           (filter (\<lambda>task_init. data_builder task_init = bn) tis))) = []"
    using assms(2) item by (simp add: concat_eq_Nil_conv)
  then have "builder_group e m rg nm od tis item w =
      Inl (SystemExit ''Nothing to generate. Exiting.'', events w)"
    using cfg item by (simp add: builder_group_def run_group_def Let_def)
  then show ?thesis by simp
qed

lemma scenario_second_at_loop_head:
  "at_loop_head scenario_complete scenario_builder 5 scenario_start scenario_second"
proof -
  have "tasks scenario_start \<noteq> []" by code_simp
  moreover have "request_idx scenario_start \<le> 5" by code_simp
  ultimately show ?thesis
    unfolding scenario_second_def by (intro at_loop_head.pass at_loop_head.enter)
qed

lemma scenario_third_at_loop_head:
  "at_loop_head scenario_complete scenario_builder 5 scenario_second scenario_third"
proof -
  have "tasks scenario_second \<noteq> []" by code_simp
  moreover have "request_idx scenario_second \<le> 5" by code_simp
  ultimately show ?thesis
    unfolding scenario_third_def by (intro at_loop_head.pass at_loop_head.enter)
qed

lemma scenario_complete_ignores_persisted:
  "\<forall>t p. scenario_complete (t\<lparr>persisted := p\<rparr>) = scenario_complete t"
  by (simp add: scenario_complete_def)

theorem pool_union_correct_witness:
  "at_loop_head scenario_complete scenario_builder 5 resumed_start resumed_start \<and>
   (\<forall>t p. scenario_complete (t\<lparr>persisted := p\<rparr>) = scenario_complete t) \<and>
   scenario_complete (heap resumed_start ! 1) \<and>
   completed_tasks resumed_start = [1] \<and>
   tasks resumed_start = [0] \<and>
   data_pool resumed_start = [seedA] \<and>
   invocations (new_events resumed_start
      (iteration scenario_complete scenario_builder resumed_start)) =
     [Invoke 1 [seedA] [genA1, genB1] 3]"
proof -
  have h: "at_loop_head scenario_complete scenario_builder 5 resumed_start resumed_start"
    by (rule at_loop_head.enter)
  have p: "pool_by_predicate scenario_complete resumed_start = [seedA]" by code_simp
  have i: "incomplete_tasks scenario_complete resumed_start = [0]" by code_simp
  have k: "scenario_complete (heap resumed_start ! 1)" by code_simp
  have c: "completed_tasks resumed_start = [1]" by code_simp
  have n: "request_idx resumed_start + 1 = 1" by code_simp
  have a: "accepted_of scenario_builder resumed_start = [genA1, genB1]" by code_simp
  have d: "discarded_by scenario_builder resumed_start = 3" by code_simp
  from pool_union_correct[OF h[unfolded resumed_start_def] scenario_complete_ignores_persisted,
      folded resumed_start_def]
  show ?thesis
    using h scenario_complete_ignores_persisted p i k c n a d by simp
qed

theorem save_once_per_active_task_witness:
  "at_loop_head scenario_complete scenario_builder 5 scenario_start scenario_start \<and>
   tasks scenario_start = [0, 1] \<and>
   saves (new_events scenario_start scenario_second) = [Save 0 [genA1], Save 1 [genB1]]"
proof -
  have h: "at_loop_head scenario_complete scenario_builder 5 scenario_start scenario_start"
    by (rule at_loop_head.enter)
  have t: "tasks scenario_start = [0, 1]" by code_simp
  have a: "share (accepted_of scenario_builder scenario_start) (heap scenario_start ! 0) = [genA1]"
    by code_simp
  have b: "share (accepted_of scenario_builder scenario_start) (heap scenario_start ! 1) = [genB1]"
    by code_simp
  from save_once_per_active_task[OF h[unfolded scenario_start_def], folded scenario_start_def]
  show ?thesis
    using h t a b by (simp add: scenario_second_def)
qed

theorem completed_task_is_retired_witness:
  "1 < length resumed_tasks \<and> scenario_complete (resumed_tasks ! 1) \<and>
   1 \<in> set (completed_tasks resumed_start) \<and> 1 \<notin> set (tasks resumed_start) \<and>
   (\<forall>t p. scenario_complete (t\<lparr>persisted := p\<rparr>) = scenario_complete t) \<and>
   1 < length (heap scenario_second) \<and> scenario_complete (heap scenario_second ! 1) \<and>
   1 \<notin> set (tasks scenario_second) \<and>
   1 \<in> set (tasks scenario_start) \<and>
   finishing scenario_complete (accepted_of scenario_builder scenario_start)
     (heap scenario_start ! 1) \<and>
   1 \<in> set (completed_tasks scenario_second) \<and>
   heap scenario_second ! 1 =
     \<lparr>name = ''B'', seed_data = [seedB], machine_data = [genB1], persisted = Some [genB1]\<rparr> \<and>
   Save 1 [genB1] \<in> set (new_events scenario_start scenario_second) \<and>
   at_loop_head scenario_complete scenario_builder 5 scenario_second scenario_third \<and>
   1 \<in> set (completed_tasks scenario_third) \<and> 1 \<notin> set (tasks scenario_third) \<and>
   heap scenario_third ! 1 = heap scenario_second ! 1 \<and>
   data_pool (scenario_third\<lparr>heap := (heap scenario_third)[1 := reloaded_task]\<rparr>) =
     data_pool scenario_third"
proof -
  have h: "at_loop_head scenario_complete scenario_builder 5 scenario_start scenario_start"
    by (rule at_loop_head.enter)
  have hr: "at_loop_head scenario_complete scenario_builder 5 resumed_start resumed_start"
    by (rule at_loop_head.enter)
  have e1: "1 < length resumed_tasks" by code_simp
  have e2: "scenario_complete (resumed_tasks ! 1)" by code_simp
  have k1: "1 < length (heap scenario_second)" by code_simp
  have k2: "scenario_complete (heap scenario_second ! 1)" by code_simp
  have a: "1 \<in> set (tasks scenario_start)" by code_simp
  have f: "finishing scenario_complete (accepted_of scenario_builder scenario_start)
     (heap scenario_start ! 1)" by code_simp
  have m: "merged (accepted_of scenario_builder scenario_start) (heap scenario_start ! 1) =
     \<lparr>name = ''B'', seed_data = [seedB], machine_data = [genB1], persisted = Some [genB1]\<rparr>"
    by code_simp
  have sh: "share (accepted_of scenario_builder scenario_start) (heap scenario_start ! 1) = [genB1]"
    by code_simp
  have c: "1 \<in> set (completed_tasks scenario_second)" by code_simp
  note entry = completed_task_is_retired[OF hr[unfolded resumed_start_def],
      folded resumed_start_def, of 1 resumed_start reloaded_task]
  note first = completed_task_is_retired[OF h[unfolded scenario_start_def],
      folded scenario_start_def, of 1 scenario_start reloaded_task]
  note later = completed_task_is_retired[OF scenario_second_at_loop_head[unfolded scenario_start_def],
      folded scenario_start_def, of 1 scenario_third reloaded_task]
  from entry e1 e2 have zero:
    "1 \<in> set (completed_tasks resumed_start) \<and> 1 \<notin> set (tasks resumed_start)"
    by blast
  from later scenario_complete_ignores_persisted k1 k2 have half:
    "1 \<notin> set (tasks scenario_second)"
    by blast
  from first a f m sh have one:
    "heap scenario_second ! 1 =
       \<lparr>name = ''B'', seed_data = [seedB], machine_data = [genB1], persisted = Some [genB1]\<rparr> \<and>
     Save 1 [genB1] \<in> set (new_events scenario_start scenario_second)"
    by (simp add: scenario_second_def)
  from later c scenario_third_at_loop_head have two:
    "1 \<in> set (completed_tasks scenario_third) \<and> 1 \<notin> set (tasks scenario_third) \<and>
     heap scenario_third ! 1 = heap scenario_second ! 1 \<and>
     data_pool (scenario_third\<lparr>heap := (heap scenario_third)[1 := reloaded_task]\<rparr>) =
       data_pool scenario_third"
    by blast
  from e1 e2 zero scenario_complete_ignores_persisted k1 k2 half a f c one two
    scenario_third_at_loop_head
  show ?thesis by blast
qed

theorem reload_is_assignment_witness:
  "persisted reloaded_task = Some [genA1] \<and>
   heap (initial_state never_complete () (map (resume False) [reloaded_task]) empty_run) ! 0 =
     resume False reloaded_task \<and>
   genA1 \<notin> set (share [genA2] reloaded_task) \<and>
   machine_data (heap (merge_task never_complete [genA2] 0
      (initial_state never_complete () (map (resume False) [reloaded_task]) empty_run)) ! 0) =
     [genA1, genA2] \<and>
   count_list (machine_data (heap (merge_task never_complete [genA2] 0
      (initial_state never_complete () (map (resume False) [reloaded_task]) empty_run)) ! 0))
      genA1 = 1"
proof -
  let ?s = "initial_state never_complete () (map (resume False) [reloaded_task]) empty_run"
  have p: "persisted reloaded_task = Some [genA1]" by code_simp
  have l: "0 < length (heap ?s)" by code_simp
  have r: "heap ?s ! 0 = resume False reloaded_task" by code_simp
  have sh: "share [genA2] reloaded_task = [genA2]" by code_simp
  have n: "genA1 \<notin> set (share [genA2] reloaded_task)" by code_simp
  have cnt: "count_list [genA1] genA1 = 1" by simp
  from reload_is_assignment[of False reloaded_task "[genA1]" 0 ?s never_complete "[genA2]"]
  show ?thesis using p l r sh n cnt by simp
qed

theorem missing_data_path_is_fatal_witness:
  "\<not> path_exists (demo_env True) ''nodata'' \<and>
   generate_data (demo_env True) 5 ''nodata'' ''out'' None False =
     Inl (SystemExit ''Error: data path (nodata) does not exist.'', [])"
proof -
  have h: "\<not> path_exists (demo_env True) ''nodata''" by code_simp
  from missing_data_path_is_fatal[OF h, of 5 "''out''" None False]
  show ?thesis using h by simp
qed

theorem no_seeds_is_fatal_witness:
  "run_groups (demo_env False) 5 False ''data'' ''out/data''
     [\<lparr>data_builder = ''b1'', init = ()\<rparr>, \<lparr>data_builder = ''b2'', init = ()\<rparr>]
     [(''b1'', Plain ()), (''b2'', Plain ())] empty_run =
   Inl (SystemExit ''Nothing to generate. Exiting.'', [])"
proof -
  have a: "snd (''b1'', Plain ()) = Plain () \<or> snd (''b1'', Plain ()) = Tuple (Some ())"
    by simp
  have b: "\<forall>ti\<in>set [\<lparr>data_builder = ''b1'', init = ()\<rparr>, \<lparr>data_builder = ''b2'', init = ()\<rparr>].
      data_builder ti = fst (''b1'', Plain ()) \<longrightarrow>
      seed_data (TASK_TYPE (get_data_builder (demo_env False) (fst (''b1'', Plain ())) ()
         ''out/data'') ''out/data'' ti) = []"
    by (simp add: demo_env_def)
  have e: "events empty_run = []" by (simp add: empty_run_def)
  from no_seeds_is_fatal[OF a b, of 5 False "''data''" "[(''b2'', Plain ())]" empty_run]
  show ?thesis using e by simp
qed

section \<open>Discard accounting\<close>

lemma sum_discarded_append [simp]:
  "sum_discarded (xs @ ys) = sum_discarded xs + sum_discarded ys"
  by (simp add: sum_discarded_def)

lemma sum_discarded_merge_events:
  "sum_discarded (concat (map (\<lambda>r. (if P r then [ProgressUpdate] else []) @ [Save r (f r)]) rs)) = 0"
  by (induction rs) (simp_all add: sum_discarded_def)

lemma log_discarded_merge_events:
  "filter is_log_discarded
     (concat (map (\<lambda>r. (if P r then [ProgressUpdate] else []) @ [Save r (f r)]) rs)) = []"
  by (induction rs) simp_all

lemma accounted_iteration:
  assumes "distinct (tasks s)" "accounted s"
  shows "accounted (iteration ic b s)"
proof -
  from iteration_events[OF assms(1), of ic b] obtain n where
    ev: "events (iteration ic b s) =
     events s @
     Invoke (request_idx s + 1) (data_pool s) (accepted_of b s) (discarded_by b s) #
     concat (map (\<lambda>r. (if finishing ic (accepted_of b s) (heap s ! r) then [ProgressUpdate] else [])
                       @ [Save r (share (accepted_of b s) (heap s ! r))]) (tasks s)) @
     [LogGenerated n (discarded_by b s)]" ..
  have "sum_discarded (events (iteration ic b s)) = sum_discarded (events s) + discarded_by b s"
    unfolding ev
    using sum_discarded_merge_events[of "\<lambda>r. finishing ic (accepted_of b s) (heap s ! r)"
        "\<lambda>r. share (accepted_of b s) (heap s ! r)" "tasks s"]
    by (simp add: sum_discarded_def)
  moreover have "filter is_log_discarded (events (iteration ic b s)) =
      filter is_log_discarded (events s)"
    unfolding ev
    using log_discarded_merge_events[of "\<lambda>r. finishing ic (accepted_of b s) (heap s ! r)"
        "\<lambda>r. share (accepted_of b s) (heap s ! r)" "tasks s"]
    by simp
  ultimately show ?thesis
    using assms(2) by (simp add: accounted_def iteration_total_discarded)
qed

lemma accounted_at_loop_head:
  "at_loop_head ic b m s0 s \<Longrightarrow> tasks s0 = not_completed s0 \<Longrightarrow> accounted s0 \<Longrightarrow> accounted s"
proof (induction rule: at_loop_head.induct)
  case enter
  then show ?case by simp
next
  case (pass s)
  then have "tasks s = not_completed s" by (auto intro: at_loop_head_consistent)
  then have "distinct (tasks s)" by (simp add: not_completed_distinct)
  with pass show ?case by (simp add: accounted_iteration)
qed

lemma accounted_run_group:
  assumes "run_group ic b b0 m rg file ts w = Inr s" "accounted w"
  shows "accounted s \<and> output_file_discarded s = Some file"
proof -
  let ?s0 = "initial_state ic b0 (map (resume rg) ts) (w\<lparr>output_file_discarded := Some file\<rparr>)"
  have s: "s = gen_loop ic b m ?s0"
    using assms(1) by (simp add: run_group_def Let_def split: if_splits)
  have a0: "accounted ?s0"
    using assms(2) by (simp add: accounted_def initial_state_def Let_def)
  have h: "at_loop_head ic b m ?s0 s"
    unfolding s by (rule gen_loop_at_loop_head)
  have f: "output_file_discarded s1 = output_file_discarded ?s0" if "at_loop_head ic b m ?s0 s1" for s1
    using that by (induction rule: at_loop_head.induct) simp_all
  have "output_file_discarded ?s0 = Some file"
    by (simp add: initial_state_def Let_def)
  with accounted_at_loop_head[OF h consistent_initial a0] f[OF h] show ?thesis by simp
qed

lemma accounted_builder_group:
  assumes "builder_group e m rg nm od tis item w = Inr w1" "accounted w"
  shows "accounted w1"
proof (cases item)
  case (Pair bn bc)
  show ?thesis
  proof (cases "case bc of Plain c \<Rightarrow> Some c | Tuple c \<Rightarrow> c")
    case None
    with assms Pair show ?thesis by (simp add: builder_group_def)
  next
    case (Some cfg)
    let ?obj = "get_data_builder e bn cfg od"
    from assms(1) Pair Some obtain s where
      rg: "run_group (task_is_complete ?obj) (call ?obj) (initial ?obj) m rg
             (os_path_join od (''discarded_'' @ nm @ ''_'' @ date_suffix e bn @ ''.log''))
             (map (TASK_TYPE ?obj od) (filter (\<lambda>task_init. data_builder task_init = bn) tis)) w
           = Inr s"
      and w1: "w1 = \<lparr>total_discarded = total_discarded s,
                     output_file_discarded = output_file_discarded s, events = events s\<rparr>"
      by (auto simp: builder_group_def Let_def split: sum.splits)
    from accounted_run_group[OF rg assms(2)] show ?thesis
      by (simp add: w1 accounted_def)
  qed
qed

lemma accounted_run_groups:
  "run_groups e m rg nm od tis items w = Inr w1 \<Longrightarrow> accounted w \<Longrightarrow> accounted w1"
proof (induction items arbitrary: w)
  case Nil
  then show ?case by simp
next
  case (Cons item items)
  from Cons.prems(1) obtain w2 where
    g: "builder_group e m rg nm od tis item w = Inr w2" and
    r: "run_groups e m rg nm od tis items w2 = Inr w1"
    by (auto split: sum.splits)
  from accounted_builder_group[OF g Cons.prems(2)] have "accounted w2" .
  with r show ?case by (rule Cons.IH)
qed

text \<open>
  C5, as amended. The discard total is kept for the whole run, not per builder group:
  when \<open>generate_data\<close> returns, the total equals the sum of the discard counts returned
  by all builder invocations of all groups, and it is reported once, as the last effect
  of the run, and only when it is not zero.
\<close>

theorem discard_total_is_run_wide:
  assumes "generate_data e m data_path output_dir include_data_path rg = Inr w"
  shows "total_discarded w = sum_discarded (events w) \<and>
         (if total_discarded w = 0 then filter is_log_discarded (events w) = []
          else \<exists>evs file. events w = evs @ [LogDiscarded (total_discarded w) file] \<and>
                 filter is_log_discarded evs = [])"
proof -
  let ?w0 = "\<lparr>total_discarded = 0, output_file_discarded = None, events = []\<rparr> :: 'a run"
  from assms obtain nm out tis items w1 where
    r: "run_groups e m rg nm out tis items ?w0 = Inr w1" and
    rep: "report_discarded w1 = Inr w"
    by (auto simp: generate_data_def Let_def split: if_splits sum.splits)
  have "accounted ?w0" by (simp add: accounted_def sum_discarded_def)
  with r have a: "accounted w1" by (rule accounted_run_groups)
  show ?thesis
  proof (cases "total_discarded w1 = 0")
    case True
    with rep have "w = w1" by (simp add: report_discarded_def)
    with a True show ?thesis by (simp add: accounted_def)
  next
    case False
    with rep obtain logfile where
      w: "w = w1\<lparr>events := events w1 @ [LogDiscarded (total_discarded w1) logfile]\<rparr>"
      by (auto simp: report_discarded_def split: option.splits)
    with a False show ?thesis by (simp add: accounted_def sum_discarded_def)
  qed
qed

text \<open>
  C5, as stated, fails: in a run with two builder groups whose builders discard 3 and 2,
  nothing is reported when the first group ends, and the only report, after the second
  group, gives 5, which is the sum of neither group.
\<close>

theorem discard_total_per_group_counterexample:
  "generate_data (demo_env True) 5 ''data'' ''out'' None False =
   Inr \<lparr>total_discarded = 5,
        output_file_discarded = Some ''out/data/discarded_data_now.log'',
        events =
          [Invoke 1 [\<lparr>task_name = ''b1'', payload = 0\<rparr>] [\<lparr>task_name = ''b1'', payload = 1\<rparr>] 3,
           ProgressUpdate, Save 0 [\<lparr>task_name = ''b1'', payload = 1\<rparr>], LogGenerated 1 3,
           Invoke 1 [\<lparr>task_name = ''b2'', payload = 0\<rparr>] [\<lparr>task_name = ''b2'', payload = 1\<rparr>] 2,
           ProgressUpdate, Save 0 [\<lparr>task_name = ''b2'', payload = 1\<rparr>], LogGenerated 1 2,
           LogDiscarded 5 ''out/data/discarded_data_now.log'']\<rparr>"
  by code_simp

theorem discard_total_is_run_wide_witness:
  "generate_data (demo_env True) 5 ''data'' ''out'' None True = Inr demo_result \<and>
   total_discarded demo_result = 5 \<and>
   sum_discarded (events demo_result) = 5 \<and>
   (\<exists>evs logfile. events demo_result = evs @ [LogDiscarded 5 logfile] \<and>
      filter is_log_discarded evs = [])"
proof -
  have g: "generate_data (demo_env True) 5 ''data'' ''out'' None True = Inr demo_result"
    by code_simp
  have t: "total_discarded demo_result = 5" by code_simp
  from discard_total_is_run_wide[OF g] show ?thesis using g t by simp
qed

section \<open>The output directory of a run\<close>

lemma split_sep_nonempty [simp]: "split_sep p \<noteq> []"
  by (induction p) simp_all




















section \<open>The number of passes when no task completes\<close>

text \<open>
  When the completion check never holds, the loop entered with a non-empty active list
  makes a pass for every counter value from the entry value up to and including
  \<open>max_gen_requests\<close>: entered with 0, that is \<open>max_gen_requests + 1\<close> builder
  invocations.
\<close>

lemma invocations_append [simp]:
  "invocations (xs @ ys) = invocations xs @ invocations ys"
  by (simp add: invocations_def)

lemma events_iteration_split:
  "distinct (tasks s) \<Longrightarrow> events (iteration ic b s) = events s @ new_events s (iteration ic b s)"
  using iteration_events[of s ic b] by (auto simp: new_events_def)

lemma never_complete_invocations:
  shows "\<forall>t. \<not> ic t \<Longrightarrow> tasks s = not_completed s \<Longrightarrow> tasks s \<noteq> [] \<Longrightarrow> request_idx s \<le> m + 1 \<Longrightarrow>
         length (invocations (events (gen_loop ic b m s))) =
           length (invocations (events s)) + nat (m + 1 - request_idx s)"
proof (induction ic b m s rule: gen_loop.induct)
  case (1 ic b m s)
  note never = "1.prems"(1) and cons = "1.prems"(2) and busy = "1.prems"(3) and idx = "1.prems"(4)
  have d: "distinct (tasks s)" using cons by (simp add: not_completed_distinct)
  show ?case
  proof (cases "request_idx s \<le> m")
    case True
    have nf: "\<not> finishing ic acc t" for acc t
      using never by (simp add: finishing_def)
    have same: "tasks (iteration ic b s) = tasks s"
      using consistent_disjoint[OF cons] by (simp add: iteration_tasks[OF d] nf filter_id_conv)
         blast
    have c: "tasks (iteration ic b s) = not_completed (iteration ic b s)"
      using cons by (rule consistent_iteration)
    have "length (invocations (events (gen_loop ic b m (iteration ic b s)))) =
        length (invocations (events (iteration ic b s))) + nat (m + 1 - request_idx (iteration ic b s))"
      using True never busy same c by (intro "1.IH") simp_all
    moreover have "length (invocations (events (iteration ic b s))) =
        length (invocations (events s)) + 1"
      by (subst events_iteration_split[OF d]) (simp add: invocations_iteration[OF d])
    ultimately show ?thesis
      using True busy by (subst gen_loop.simps) simp
  next
    case False
    with idx show ?thesis by (subst gen_loop.simps) simp
  qed
qed

end
